theory Spec2Isabelle
  imports Main "HOL-Library.Word"
begin

section \<open>The weather cache of weatherCachingAPI\<close>

text \<open>
  Both programs of the repository (the simulated and the real-time forecasting server)
  carry the same cache: a Go map from city names to pointers into a
  \<^verbatim>\<open>container/list\<close> doubly linked list, a capacity \<^verbatim>\<open>maxSize\<close> and a
  time to live \<^verbatim>\<open>expiry\<close>. The three functions \<^verbatim>\<open>getCachedWeatherData\<close>,
  \<^verbatim>\<open>updateCache\<close> and \<^verbatim>\<open>evictOldest\<close> are textually the same in both
  programs, so one embedding covers both.
\<close>

subsection \<open>Time\<close>

text \<open>
  An instant of \<^verbatim>\<open>time.Time\<close> is an integer count of nanoseconds since Go's zero
  instant; a \<^verbatim>\<open>time.Duration\<close> is a signed 64-bit count of nanoseconds.
  \<^verbatim>\<open>Time.Sub\<close> saturates at the smallest and the largest duration, and
  \<^verbatim>\<open>time.Since(t)\<close> is \<^verbatim>\<open>time.Now().Sub(t)\<close>; the clock reading is an argument
  of the model.
\<close>

type_synonym Time = int
type_synonym Duration = int

definition minDuration :: Duration where
  "minDuration = - (2 ^ 63)"

definition maxDuration :: Duration where
  "maxDuration = 2 ^ 63 - 1"

definition Minute :: Duration where
  "Minute = 60 * 1000000000"

definition time_Sub :: "Time \<Rightarrow> Time \<Rightarrow> Duration" where
  "time_Sub t u =
     (let d = t - u
      in if d < minDuration then minDuration
         else if maxDuration < d then maxDuration
         else d)"

definition time_Since :: "Time \<Rightarrow> Time \<Rightarrow> Duration" where
  "time_Since now t = time_Sub now t"

subsection \<open>Data\<close>

text \<open>
  \<^verbatim>\<open>Temp\<close> is a \<^verbatim>\<open>float64\<close> that the cache stores and returns and never
  computes with: it is carried as its 64-bit pattern.
\<close>

record CityWeatherData =
  City :: string
  Temp :: "64 word"
  Desc :: string
  CacheTime :: Time

text \<open>The zero value \<^verbatim>\<open>CityWeatherData{}\<close>.\<close>

definition zeroCityWeatherData :: CityWeatherData where
  "zeroCityWeatherData = \<lparr>City = [], Temp = 0, Desc = [], CacheTime = 0\<rparr>"

text \<open>
  \<^verbatim>\<open>cacheItem\<close>; its field \<^verbatim>\<open>data\<close> is called \<open>itemData\<close> here, since
  \<^verbatim>\<open>Cache\<close> has a field \<^verbatim>\<open>data\<close> too.
\<close>

record cacheItem =
  city :: string
  itemData :: CityWeatherData

text \<open>
  A \<^verbatim>\<open>*list.Element\<close>. The program never writes to \<^verbatim>\<open>Value\<close> after
  \<^verbatim>\<open>PushFront\<close> has created the element, so a pointer is modelled by the address
  of the element together with the value found there; two pointers are equal when their
  addresses are.
\<close>

record Element =
  addr :: nat
  Value :: cacheItem

text \<open>
  \<^verbatim>\<open>Cache\<close>. The list is the sequence of its elements from front to back. The field
  \<open>nextAddr\<close> is not in the Go struct: it stands for the allocator, which hands out
  an address never used before on every \<^verbatim>\<open>PushFront\<close>. The mutex \<^verbatim>\<open>mu\<close> is
  modelled apart, in the last section.
\<close>

record Cache =
  data :: "string \<rightharpoonup> Element"
  orderedList :: "Element list"
  maxSize :: int
  expiry :: Duration
  nextAddr :: nat

subsection \<open>The operations of \<^verbatim>\<open>container/list\<close> the program calls\<close>

definition Len :: "Element list \<Rightarrow> int" where
  "Len l = int (length l)"

text \<open>\<^verbatim>\<open>Back\<close> returns \<^verbatim>\<open>nil\<close> on the empty list.\<close>

definition Back :: "Element list \<Rightarrow> Element option" where
  "Back l = (if l = [] then None else Some (last l))"

text \<open>\<^verbatim>\<open>Remove\<close> and \<^verbatim>\<open>MoveToFront\<close> leave the list alone when the element is
  not one of its elements.\<close>

definition Remove :: "Element \<Rightarrow> Element list \<Rightarrow> Element list" where
  "Remove e l = (if e \<in> set l then remove1 e l else l)"

definition MoveToFront :: "Element \<Rightarrow> Element list \<Rightarrow> Element list" where
  "MoveToFront e l = (if e \<in> set l then e # remove1 e l else l)"

definition PushFront :: "cacheItem \<Rightarrow> Cache \<Rightarrow> Element \<times> Cache" where
  "PushFront v c =
     (let e = \<lparr>addr = nextAddr c, Value = v\<rparr>
      in (e, c\<lparr>orderedList := e # orderedList c, nextAddr := Suc (nextAddr c)\<rparr>))"

subsection \<open>The cache functions\<close>

text \<open>The cache built by \<^verbatim>\<open>init\<close>, with the capacity and time to live as
  parameters; the program uses 100 and 30 minutes.\<close>

definition emptyCache :: "int \<Rightarrow> Duration \<Rightarrow> Cache" where
  "emptyCache ms ex =
     \<lparr>data = Map.empty, orderedList = [], maxSize = ms, expiry = ex, nextAddr = 0\<rparr>"

definition initCache :: Cache where
  "initCache = emptyCache 100 (30 * Minute)"

text \<open>The state after \<^verbatim>\<open>cache.orderedList.MoveToFront(elem)\<close>.\<close>

definition promoted :: "Cache \<Rightarrow> Element \<Rightarrow> Cache" where
  "promoted c elem = c\<lparr>orderedList := MoveToFront elem (orderedList c)\<rparr>"

text \<open>The state after \<^verbatim>\<open>cache.orderedList.Remove(elem); delete(cache.data, city)\<close>.\<close>

definition expired :: "Cache \<Rightarrow> Element \<Rightarrow> string \<Rightarrow> Cache" where
  "expired c elem cityName =
     c\<lparr>orderedList := Remove elem (orderedList c), data := (data c)(cityName := None)\<rparr>"

text \<open>\<^verbatim>\<open>getCachedWeatherData\<close>, with the clock reading \<open>now\<close> that
  \<^verbatim>\<open>time.Since\<close> takes; the result is the new cache and the two values returned.\<close>

definition getCachedWeatherData ::
    "Cache \<Rightarrow> string \<Rightarrow> Time \<Rightarrow> Cache \<times> CityWeatherData \<times> bool" where
  "getCachedWeatherData c cityName now =
     (case data c cityName of
        None \<Rightarrow> (c, zeroCityWeatherData, False)
      | Some elem \<Rightarrow>
          (let c1 = promoted c elem;
               item = Value elem
           in if time_Since now (CacheTime (itemData item)) < expiry c1
              then (c1, itemData item, True)
              else (expired c1 elem cityName, zeroCityWeatherData, False)))"



definition evictOldest :: "Cache \<Rightarrow> Cache" where
  "evictOldest c =
     (case Back (orderedList c) of
        None \<Rightarrow> c
      | Some oldest \<Rightarrow>
          c\<lparr>orderedList := Remove oldest (orderedList c),
            data := (data c)(city (Value oldest) := None)\<rparr>)"

definition updateCache :: "Cache \<Rightarrow> string \<Rightarrow> CityWeatherData \<Rightarrow> Cache" where
  "updateCache c cityName d =
     (let c1 = (if maxSize c \<le> Len (orderedList c) then evictOldest c else c);
          item = \<lparr>city = cityName, itemData = d\<rparr>;
          (elem, c2) = PushFront item c1
      in c2\<lparr>data := (data c2)(cityName \<mapsto> elem)\<rparr>)"

subsection \<open>Sequences of operations\<close>

datatype operation = Lookup string Time | Insert string CityWeatherData

fun apply_operation :: "Cache \<Rightarrow> operation \<Rightarrow> Cache" where
  "apply_operation c (Lookup k now) = fst (getCachedWeatherData c k now)"
| "apply_operation c (Insert k d) = updateCache c k d"

fun run :: "Cache \<Rightarrow> operation list \<Rightarrow> Cache" where
  "run c [] = c"
| "run c (x # xs) = run (apply_operation c x) xs"

text \<open>The keys of the index, the keys carried by the list, and the two sizes.\<close>

definition indexKeys :: "Cache \<Rightarrow> string set" where
  "indexKeys c = dom (data c)"

definition sequenceKeys :: "Cache \<Rightarrow> string list" where
  "sequenceKeys c = map (\<lambda>e. city (Value e)) (orderedList c)"

definition indexSize :: "Cache \<Rightarrow> int" where
  "indexSize c = int (card (dom (data c)))"

subsection \<open>What every reachable cache satisfies\<close>

text \<open>
  The addresses in the list are pairwise different and were all handed out already, and
  every pointer of the index leads to an element of the list that carries the key it is
  stored under.
\<close>

definition cache_inv :: "Cache \<Rightarrow> bool" where
  "cache_inv c \<longleftrightarrow>
     distinct (map addr (orderedList c)) \<and>
     (\<forall>e \<in> set (orderedList c). addr e < nextAddr c) \<and>
     (\<forall>k e. data c k = Some e \<longrightarrow> e \<in> set (orderedList c) \<and> city (Value e) = k)"

subsection \<open>The lock around the cache functions\<close>

text \<open>
  \<^verbatim>\<open>getCachedWeatherData\<close> opens with \<^verbatim>\<open>cache.mu.RLock()\<close> and defers
  \<^verbatim>\<open>RUnlock\<close>; \<^verbatim>\<open>updateCache\<close> opens with \<^verbatim>\<open>cache.mu.Lock()\<close> and defers
  \<^verbatim>\<open>Unlock\<close>. A \<^verbatim>\<open>sync.RWMutex\<close> is held by any number of readers or by one
  writer. A goroutine running one of the two functions is before its lock call, inside
  the body with the lock held, or past its deferred unlock. A schedule names, step by
  step, the goroutine that moves next; it has no outcome when the goroutine named cannot
  move (its lock call would block, or it has returned). Go also makes a new reader wait
  while a writer is waiting; that removes schedules and adds none, and it plays no part
  where no goroutine calls \<^verbatim>\<open>Lock\<close>.
\<close>

datatype cacheFunction = GetCachedWeatherData | UpdateCache

datatype lockCall = RLock | Lock

fun lockTaken :: "cacheFunction \<Rightarrow> lockCall" where
  "lockTaken GetCachedWeatherData = RLock"
| "lockTaken UpdateCache = Lock"

record RWMutex =
  readers :: nat
  writer :: bool

definition unlocked :: RWMutex where
  "unlocked = \<lparr>readers = 0, writer = False\<rparr>"

datatype phase = Before | Inside | After

type_synonym goroutine = "cacheFunction \<times> phase"

fun acquire :: "lockCall \<Rightarrow> RWMutex \<Rightarrow> RWMutex option" where
  "acquire RLock mu = (if writer mu then None else Some (mu\<lparr>readers := Suc (readers mu)\<rparr>))"
| "acquire Lock mu =
     (if writer mu \<or> 0 < readers mu then None else Some (mu\<lparr>writer := True\<rparr>))"

fun release :: "lockCall \<Rightarrow> RWMutex \<Rightarrow> RWMutex" where
  "release RLock mu = mu\<lparr>readers := readers mu - 1\<rparr>"
| "release Lock mu = mu\<lparr>writer := False\<rparr>"

fun advance :: "RWMutex \<times> goroutine list \<Rightarrow> nat \<Rightarrow> (RWMutex \<times> goroutine list) option" where
  "advance (mu, gs) i =
     (if length gs \<le> i then None
      else case gs ! i of
        (f, Before) \<Rightarrow>
          (case acquire (lockTaken f) mu of
             None \<Rightarrow> None
           | Some mu' \<Rightarrow> Some (mu', gs[i := (f, Inside)]))
      | (f, Inside) \<Rightarrow> Some (release (lockTaken f) mu, gs[i := (f, After)])
      | (f, After) \<Rightarrow> None)"

fun schedule :: "RWMutex \<times> goroutine list \<Rightarrow> nat list \<Rightarrow> (RWMutex \<times> goroutine list) option" where
  "schedule s [] = Some s"
| "schedule s (i # is) = (case advance s i of None \<Rightarrow> None | Some s' \<Rightarrow> schedule s' is)"

text \<open>The goroutines inside a body, by the lock call they made, and what ties them to
  the state of the mutex.\<close>

definition writersInside :: "goroutine list \<Rightarrow> nat" where
  "writersInside gs = length (filter (\<lambda>g. snd g = Inside \<and> lockTaken (fst g) = Lock) gs)"

definition readersInside :: "goroutine list \<Rightarrow> nat" where
  "readersInside gs = length (filter (\<lambda>g. snd g = Inside \<and> lockTaken (fst g) = RLock) gs)"

definition mutex_inv :: "RWMutex \<times> goroutine list \<Rightarrow> bool" where
  "mutex_inv s \<longleftrightarrow>
     readers (fst s) = readersInside (snd s) \<and>
     writersInside (snd s) = (if writer (fst s) then 1 else 0) \<and>
     (writer (fst s) \<longrightarrow> readers (fst s) = 0)"

subsection \<open>Concrete inputs\<close>

text \<open>Weather records and caches on which the functions are evaluated below.
  \<open>puneCache\<close> is the program's cache after one insertion; \<open>fullCache\<close> is a cache
  of capacity two that holds two cities.\<close>

definition pune :: CityWeatherData where
  "pune = \<lparr>City = ''Pune'', Temp = 0, Desc = ''Cold'', CacheTime = 100\<rparr>"

definition pune2 :: CityWeatherData where
  "pune2 = \<lparr>City = ''Pune'', Temp = 0, Desc = ''Cool'', CacheTime = 150\<rparr>"

definition delhi :: CityWeatherData where
  "delhi = \<lparr>City = ''Delhi'', Temp = 0, Desc = ''Warm'', CacheTime = 200\<rparr>"

definition delhi2 :: CityWeatherData where
  "delhi2 = \<lparr>City = ''Delhi'', Temp = 0, Desc = ''Hot'', CacheTime = 300\<rparr>"

definition stale :: CityWeatherData where
  "stale = \<lparr>City = ''Pune'', Temp = 0, Desc = ''Cold'', CacheTime = 0\<rparr>"

definition puneElem :: Element where
  "puneElem = \<lparr>addr = 0, Value = \<lparr>city = ''Pune'', itemData = pune\<rparr>\<rparr>"


definition puneCache :: Cache where
  "puneCache = updateCache initCache ''Pune'' pune"

definition fullCache :: Cache where
  "fullCache = run (emptyCache 2 (30 * Minute)) [Insert ''Pune'' pune, Insert ''Delhi'' delhi]"

section \<open>Properties\<close>

lemma cache_inv_empty: "cache_inv (emptyCache ms ex)"
  by (simp add: cache_inv_def emptyCache_def)

subsection \<open>Auxiliary facts\<close>

lemma distinct_addr_MoveToFront:
  assumes "distinct (map addr l)"
  shows "distinct (map addr (MoveToFront e l))"
proof -
  from assms have d: "distinct l" and i: "inj_on addr (set l)"
    by (simp_all add: distinct_map)
  from i have "inj_on addr (set l - {e})"
    by (rule inj_on_subset) auto
  moreover have "addr e \<notin> addr ` (set l - {e})" if "e \<in> set l"
    using i that by (auto dest: inj_onD)
  ultimately show ?thesis using assms d
    by (simp add: MoveToFront_def distinct_map set_remove1_eq)
qed

lemma set_MoveToFront: "set (MoveToFront e l) = set l"
proof (cases "e \<in> set l")
  case True
  have "x \<in> set l \<longleftrightarrow> x = e \<or> x \<in> set (remove1 e l)" for x
    using True in_set_remove1[of x e l] by (cases "x = e") auto
  then show ?thesis using True by (auto simp: MoveToFront_def)
next
  case False
  then show ?thesis by (simp add: MoveToFront_def)
qed

lemma distinct_addr_Remove:
  assumes "distinct (map addr l)"
  shows "distinct (map addr (Remove e l))"
proof -
  from assms have d: "distinct l" and i: "inj_on addr (set l)"
    by (simp_all add: distinct_map)
  from i have "inj_on addr (set l - {e})"
    by (rule inj_on_subset) auto
  then show ?thesis using assms d
    by (simp add: Remove_def distinct_map set_remove1_eq)
qed

lemma set_Remove_subset: "x \<in> set (Remove e l) \<Longrightarrow> x \<in> set l"
  using set_remove1_subset[of e l] by (auto simp: Remove_def split: if_splits)

lemma in_set_Remove: "x \<in> set l \<Longrightarrow> x \<noteq> e \<Longrightarrow> x \<in> set (Remove e l)"
  by (simp add: Remove_def)

lemma cache_inv_promoted: "cache_inv c \<Longrightarrow> cache_inv (promoted c e)"
  by (simp add: cache_inv_def promoted_def distinct_addr_MoveToFront set_MoveToFront)

lemma cache_inv_expired:
  assumes "cache_inv c" and "data c k = Some e"
  shows "cache_inv (expired c e k)"
proof -
  have "e' \<in> set (Remove e (orderedList c)) \<and> city (Value e') = k'"
    if "k' \<noteq> k" and "data c k' = Some e'" for k' e'
  proof -
    from assms that have "e' \<in> set (orderedList c)" "city (Value e') = k'" "city (Value e) = k"
      by (auto simp: cache_inv_def)
    with that show ?thesis by (auto intro: in_set_Remove)
  qed
  with assms(1) show ?thesis
    by (auto simp: cache_inv_def expired_def distinct_addr_Remove dest: set_Remove_subset)
qed

lemma cache_inv_evictOldest:
  assumes "cache_inv c"
  shows "cache_inv (evictOldest c)"
proof (cases "Back (orderedList c)")
  case None
  with assms show ?thesis by (simp add: evictOldest_def)
next
  case (Some oldest)
  have "e' \<in> set (Remove oldest (orderedList c)) \<and> city (Value e') = k'"
    if "k' \<noteq> city (Value oldest)" and "data c k' = Some e'" for k' e'
  proof -
    from assms that have "e' \<in> set (orderedList c)" "city (Value e') = k'"
      by (auto simp: cache_inv_def)
    with that show ?thesis by (auto intro: in_set_Remove)
  qed
  with assms Some show ?thesis
    by (auto simp: cache_inv_def evictOldest_def distinct_addr_Remove dest: set_Remove_subset)
qed

lemma cache_inv_push:
  assumes "cache_inv c"
  shows "cache_inv (let (elem, c2) = PushFront \<lparr>city = k, itemData = d\<rparr> c
                    in c2\<lparr>data := (data c2)(k \<mapsto> elem)\<rparr>)"
  using assms by (fastforce simp: cache_inv_def PushFront_def Let_def)

lemma cache_inv_updateCache: "cache_inv c \<Longrightarrow> cache_inv (updateCache c k d)"
  using cache_inv_push[of "evictOldest c" k d] cache_inv_push[of c k d] cache_inv_evictOldest[of c]
  by (simp add: updateCache_def Let_def)

lemma data_promoted: "data (promoted c e) = data c"
  by (simp add: promoted_def)

lemma cache_inv_getCachedWeatherData:
  "cache_inv c \<Longrightarrow> cache_inv (fst (getCachedWeatherData c k now))"
  by (auto simp: getCachedWeatherData_def Let_def data_promoted
      intro!: cache_inv_promoted cache_inv_expired split: option.splits)

lemma cache_inv_apply_operation: "cache_inv c \<Longrightarrow> cache_inv (apply_operation c x)"
  by (cases x) (simp_all add: cache_inv_getCachedWeatherData cache_inv_updateCache)

lemma cache_inv_run: "cache_inv c \<Longrightarrow> cache_inv (run c ops)"
  by (induction ops arbitrary: c) (simp_all add: cache_inv_apply_operation)

lemma maxSize_getCachedWeatherData: "maxSize (fst (getCachedWeatherData c k now)) = maxSize c"
  by (simp add: getCachedWeatherData_def Let_def promoted_def expired_def split: option.splits)

lemma maxSize_evictOldest: "maxSize (evictOldest c) = maxSize c"
  by (simp add: evictOldest_def split: option.splits)

lemma maxSize_updateCache: "maxSize (updateCache c k d) = maxSize c"
  by (simp add: updateCache_def Let_def PushFront_def maxSize_evictOldest)

lemma maxSize_apply_operation: "maxSize (apply_operation c x) = maxSize c"
  by (cases x) (simp_all add: maxSize_getCachedWeatherData maxSize_updateCache)

lemma maxSize_run: "maxSize (run c ops) = maxSize c"
  by (induction ops arbitrary: c) (simp_all add: maxSize_apply_operation)

lemma Len_Remove: "Len (Remove e l) = (if e \<in> set l then Len l - 1 else Len l)"
proof (cases "e \<in> set l")
  case True
  then have "0 < length l" by (rule length_pos_if_in_set)
  then have "int (length l - 1) = int (length l) - 1" by linarith
  with True show ?thesis by (simp add: Len_def Remove_def length_remove1)
next
  case False
  then show ?thesis by (simp add: Remove_def)
qed

lemma Len_MoveToFront: "Len (MoveToFront e l) = Len l"
  using length_pos_if_in_set[of e l]
  by (auto simp: Len_def MoveToFront_def length_remove1)

lemma Len_evictOldest:
  "Len (orderedList (evictOldest c)) = (if orderedList c = [] then 0 else Len (orderedList c) - 1)"
  by (simp add: evictOldest_def Back_def Len_Remove) (simp add: Len_def)

lemma Len_updateCache:
  "Len (orderedList (updateCache c k d)) =
     (if maxSize c \<le> Len (orderedList c) \<and> orderedList c \<noteq> [] then Len (orderedList c)
      else Len (orderedList c) + 1)"
proof -
  have "Len (orderedList (updateCache c k d)) =
          Len (orderedList (if maxSize c \<le> Len (orderedList c) then evictOldest c else c)) + 1"
    by (simp add: updateCache_def Let_def PushFront_def Len_def)
  then show ?thesis
    by (simp add: Len_evictOldest) (simp add: Len_def)
qed

lemma Len_getCachedWeatherData:
  "Len (orderedList (fst (getCachedWeatherData c k now))) \<le> Len (orderedList c)"
  by (simp add: getCachedWeatherData_def Let_def promoted_def expired_def Len_Remove
      Len_MoveToFront split: option.splits)

lemma Len_apply_operation:
  assumes "0 < maxSize c" and "Len (orderedList c) \<le> maxSize c"
  shows "Len (orderedList (apply_operation c x)) \<le> maxSize c"
proof (cases x)
  case (Lookup k now)
  with assms(2) Len_getCachedWeatherData[of c k now] show ?thesis by simp
next
  case (Insert k d)
  have "orderedList c \<noteq> []" if "maxSize c \<le> Len (orderedList c)"
    using that assms(1) by (auto simp: Len_def)
  with assms Insert show ?thesis by (auto simp: Len_updateCache)
qed

lemma Len_run:
  "0 < maxSize c \<Longrightarrow> Len (orderedList c) \<le> maxSize c \<Longrightarrow>
   Len (orderedList (run c ops)) \<le> maxSize c"
proof (induction ops arbitrary: c)
  case Nil
  then show ?case by simp
next
  case (Cons x xs)
  from Cons.prems have "Len (orderedList (apply_operation c x)) \<le> maxSize (apply_operation c x)"
    by (simp add: Len_apply_operation maxSize_apply_operation)
  with Cons.IH[of "apply_operation c x"] Cons.prems(1) show ?case
    by (simp add: maxSize_apply_operation)
qed

lemma dom_data_subset:
  "cache_inv c \<Longrightarrow> dom (data c) \<subseteq> (\<lambda>e. city (Value e)) ` set (orderedList c)"
  by (force simp: cache_inv_def)

lemma finite_dom_data: "cache_inv c \<Longrightarrow> finite (dom (data c))"
  by (rule finite_subset[OF dom_data_subset]) simp_all

lemma indexSize_le_Len:
  assumes "cache_inv c"
  shows "indexSize c \<le> Len (orderedList c)"
proof -
  have "card (dom (data c)) \<le> card ((\<lambda>e. city (Value e)) ` set (orderedList c))"
    by (rule card_mono[OF _ dom_data_subset[OF assms]]) simp
  also have "\<dots> \<le> card (set (orderedList c))"
    by (rule card_image_le) simp
  also have "\<dots> \<le> length (orderedList c)"
    by (rule card_length)
  finally show ?thesis by (simp add: indexSize_def Len_def)
qed

lemma time_Since_less:
  "minDuration < ex \<Longrightarrow> ex \<le> maxDuration \<Longrightarrow> time_Since now t < ex \<longleftrightarrow> now - t < ex"
  by (auto simp: time_Since_def time_Sub_def Let_def)

lemma in_list_of_index: "cache_inv c \<Longrightarrow> data c k = Some e \<Longrightarrow> e \<in> set (orderedList c)"
  by (simp add: cache_inv_def)

lemma distinct_orderedList: "cache_inv c \<Longrightarrow> distinct (orderedList c)"
  by (simp add: cache_inv_def distinct_map)

lemma Remove_MoveToFront: "e \<in> set l \<Longrightarrow> Remove e (MoveToFront e l) = remove1 e l"
  by (simp add: Remove_def MoveToFront_def)

lemma indexSize_delete:
  assumes "cache_inv c" and "data c k = Some e"
  shows "int (card (dom ((data c)(k := None)))) = indexSize c - 1"
proof -
  from assms(2) have "k \<in> dom (data c)" by auto
  moreover from assms(1) have "finite (dom (data c))" by (rule finite_dom_data)
  ultimately have "0 < card (dom (data c))" by (auto simp: card_gt_0_iff)
  moreover have "card (dom (data c) - {k}) = card (dom (data c)) - 1"
    using \<open>k \<in> dom (data c)\<close> by simp
  ultimately show ?thesis by (simp add: indexSize_def)
qed

lemma nextAddr_evictOldest: "nextAddr (evictOldest c) = nextAddr c"
  by (simp add: evictOldest_def split: option.splits)

lemma Len_nonneg: "0 \<le> Len l"
  by (simp add: Len_def)

lemma Len_le_one_apply_operation:
  assumes "maxSize c = 0" and "Len (orderedList c) \<le> 1"
  shows "Len (orderedList (apply_operation c x)) \<le> 1"
proof (cases x)
  case (Lookup k now)
  with assms(2) Len_getCachedWeatherData[of c k now] show ?thesis by simp
next
  case (Insert k d)
  have "Len (orderedList c) = 0" if "orderedList c = []"
    using that by (simp add: Len_def)
  with assms Insert Len_nonneg[of "orderedList c"] show ?thesis
    by (auto simp: Len_updateCache)
qed

lemma Len_le_one_run:
  "maxSize c = 0 \<Longrightarrow> Len (orderedList c) \<le> 1 \<Longrightarrow> Len (orderedList (run c ops)) \<le> 1"
proof (induction ops arbitrary: c)
  case Nil
  then show ?case by simp
next
  case (Cons x xs)
  then show ?case
    by (simp add: Len_le_one_apply_operation maxSize_apply_operation)
qed

lemma evictOldest_short:
  assumes "Len (orderedList c) \<le> 1"
  shows "orderedList (evictOldest c) = []"
proof (cases "orderedList c")
  case Nil
  then show ?thesis by (simp add: evictOldest_def Back_def)
next
  case (Cons x xs)
  with assms have "xs = []" by (simp add: Len_def)
  with Cons show ?thesis by (simp add: evictOldest_def Back_def Remove_def)
qed

lemma data_empty:
  assumes "cache_inv c" and "orderedList c = []"
  shows "data c = Map.empty"
proof
  fix k
  show "data c k = None"
    using assms by (cases "data c k") (auto simp: cache_inv_def)
qed

lemma updateCache_zero_capacity:
  assumes "maxSize c = 0"
  shows "updateCache c k d =
     (evictOldest c)\<lparr>orderedList :=
          \<lparr>addr = nextAddr c, Value = \<lparr>city = k, itemData = d\<rparr>\<rparr> # orderedList (evictOldest c),
        nextAddr := Suc (nextAddr c),
        data := (data (evictOldest c))(k \<mapsto> \<lparr>addr = nextAddr c, Value = \<lparr>city = k, itemData = d\<rparr>\<rparr>)\<rparr>"
  using assms Len_nonneg[of "orderedList c"]
  by (simp add: updateCache_def PushFront_def Let_def nextAddr_evictOldest)

lemmas cache_eval =
  updateCache_def PushFront_def evictOldest_def Back_def Remove_def MoveToFront_def Len_def
  getCachedWeatherData_def promoted_def expired_def emptyCache_def initCache_def Let_def
  time_Since_def time_Sub_def minDuration_def maxDuration_def Minute_def
  sequenceKeys_def indexKeys_def indexSize_def

lemma puneCache_eq:
  "puneCache = \<lparr>data = [''Pune'' \<mapsto> puneElem], orderedList = [puneElem], maxSize = 100,
      expiry = 30 * Minute, nextAddr = 1\<rparr>"
  by (simp add: puneCache_def puneElem_def cache_eval)




text \<open>
  What \<^verbatim>\<open>updateCache\<close> does with a key that the index already holds, in a full
  cache of any capacity whose back element carries another key: that other key loses its
  index entry, and the element the present key had stays in the list behind the new one.
\<close>

lemma updateCache_present_key:
  assumes "cache_inv c" and "data c k = Some e"
    and "maxSize c \<le> Len (orderedList c)" and "orderedList c \<noteq> []"
    and "city (Value (last (orderedList c))) \<noteq> k"
  shows "data (updateCache c k d) (city (Value (last (orderedList c)))) = None \<and>
         orderedList (updateCache c k d) =
           \<lparr>addr = nextAddr c, Value = \<lparr>city = k, itemData = d\<rparr>\<rparr> # butlast (orderedList c) \<and>
         e \<in> set (butlast (orderedList c))"
proof -
  let ?l = "orderedList c"
  have dist: "distinct ?l"
    using assms(1) by (rule distinct_orderedList)
  have "e \<in> set ?l" and "city (Value e) = k"
    using assms(1,2) by (simp_all add: cache_inv_def)
  with assms(5) have ne: "e \<noteq> last ?l"
    by auto
  have split: "?l = butlast ?l @ [last ?l]"
    using assms(4) by simp
  have "last ?l \<notin> set (butlast ?l)"
    using dist split by (metis distinct_append disjoint_iff list.set_intros(1) distinct.simps(2))
  then have rm: "remove1 (last ?l) ?l = butlast ?l"
    using split by (metis remove1_append remove1.simps(2) append_Nil2 remove1.simps(1))
  have mem: "e \<in> set (butlast ?l)"
    using \<open>e \<in> set ?l\<close> ne split
    by (metis Un_iff empty_iff insert_iff list.set(1) list.set(2) set_append)
  show ?thesis
    using assms(3,4,5) rm mem
    by (simp add: updateCache_def PushFront_def Let_def evictOldest_def Back_def Remove_def)
qed

subsection \<open>Auxiliary facts about the lock\<close>

lemma filter_update_length:
  assumes "i < length gs"
  shows "length (filter P (gs[i := g])) + (if P (gs ! i) then 1 else 0)
       = length (filter P gs) + (if P g then 1 else 0)"
  using assms
proof (induction gs arbitrary: i)
  case Nil
  then show ?case by simp
next
  case (Cons a gs)
  then show ?case by (cases i) auto
qed

lemma mutex_inv_advance:
  assumes "mutex_inv s" and "advance s i = Some s'"
  shows "mutex_inv s'"
proof -
  obtain mu gs where s: "s = (mu, gs)" by (cases s)
  from assms(2) s have i: "i < length gs" by (auto split: if_splits)
  obtain f p where g: "gs ! i = (f, p)" by (cases "gs ! i")
  note r = filter_update_length[OF i, of "\<lambda>g. snd g = Inside \<and> lockTaken (fst g) = RLock"]
  note w = filter_update_length[OF i, of "\<lambda>g. snd g = Inside \<and> lockTaken (fst g) = Lock"]
  show ?thesis
    using assms s i g r[of "(f, Inside)"] w[of "(f, Inside)"] r[of "(f, After)"] w[of "(f, After)"]
    by (cases p; cases f)
      (auto simp: mutex_inv_def readersInside_def writersInside_def split: if_splits)
qed

lemma mutex_inv_initial: "\<forall>g \<in> set gs. snd g = Before \<Longrightarrow> mutex_inv (unlocked, gs)"
  by (induction gs) (auto simp: mutex_inv_def unlocked_def readersInside_def writersInside_def)

lemma mutex_inv_schedule: "mutex_inv s \<Longrightarrow> schedule s js = Some s' \<Longrightarrow> mutex_inv s'"
proof (induction js arbitrary: s)
  case Nil
  then show ?case by simp
next
  case (Cons j js)
  then show ?case
    by (auto split: option.splits dest: mutex_inv_advance)
qed

lemma two_in_filter:
  assumes "i < length gs" and "j < length gs" and "i \<noteq> j" and "P (gs ! i)" and "P (gs ! j)"
  shows "2 \<le> length (filter P gs)"
proof -
  have "{i, j} \<subseteq> {k. k < length gs \<and> P (gs ! k)}"
    using assms by auto
  then have "card {i, j} \<le> card {k. k < length gs \<and> P (gs ! k)}"
    by (intro card_mono) auto
  then show ?thesis
    using assms(3) by (simp add: length_filter_conv_card)
qed

lemma one_in_filter:
  assumes "i < length gs" and "P (gs ! i)"
  shows "1 \<le> length (filter P gs)"
proof -
  have "gs ! i \<in> set (filter P gs)"
    using assms by simp
  then have "0 < length (filter P gs)"
    by (rule length_pos_if_in_set)
  then show ?thesis
    by linarith
qed

lemma updateCache_exclusive:
  assumes "mutex_inv (unlocked, gs0)" and "schedule (unlocked, gs0) js = Some (mu, gs)"
    and "i < length gs" and "gs ! i = (UpdateCache, Inside)"
    and "j < length gs" and "j \<noteq> i"
  shows "snd (gs ! j) \<noteq> Inside"
proof
  assume inside: "snd (gs ! j) = Inside"
  have inv: "mutex_inv (mu, gs)"
    using assms(1,2) by (rule mutex_inv_schedule)
  have "1 \<le> writersInside gs"
    using one_in_filter[of i gs "\<lambda>g. snd g = Inside \<and> lockTaken (fst g) = Lock"] assms(3,4)
    by (simp add: writersInside_def)
  with inv have w: "writersInside gs = 1" and r: "readersInside gs = 0"
    by (auto simp: mutex_inv_def split: if_splits)
  show False
  proof (cases "lockTaken (fst (gs ! j))")
    case RLock
    then have "1 \<le> readersInside gs"
      using one_in_filter[of j gs "\<lambda>g. snd g = Inside \<and> lockTaken (fst g) = RLock"]
        assms(5) inside
      by (simp add: readersInside_def)
    with r show False by simp
  next
    case Lock
    then have "2 \<le> writersInside gs"
      using two_in_filter[of i gs j "\<lambda>g. snd g = Inside \<and> lockTaken (fst g) = Lock"]
        assms(3-6) inside
      by (simp add: writersInside_def)
    with w show False by simp
  qed
qed

subsection \<open>The claims\<close>

text \<open>
  C1. Inserting a key that the index already holds. Evaluated on the cache of capacity
  two that holds Pune and Delhi, with Delhi inserted again: Pune is evicted, the index
  shrinks from two keys to one, and the list then carries Delhi twice, the element of the
  first insertion still in its place behind the new one. On the program's own cache
  (capacity 100) two insertions of Pune leave two elements in the list, so the key counts
  twice towards \<open>maxSize\<close>.
\<close>

theorem insert_present_key_evaluated:
  "data fullCache ''Delhi'' = Some \<lparr>addr = 1, Value = \<lparr>city = ''Delhi'', itemData = delhi\<rparr>\<rparr> \<and>
   sequenceKeys fullCache = [''Delhi'', ''Pune''] \<and>
   indexKeys fullCache = {''Delhi'', ''Pune''} \<and>
   indexSize fullCache = 2 \<and>
   sequenceKeys (updateCache fullCache ''Delhi'' delhi2) = [''Delhi'', ''Delhi''] \<and>
   indexKeys (updateCache fullCache ''Delhi'' delhi2) = {''Delhi''} \<and>
   indexSize (updateCache fullCache ''Delhi'' delhi2) = 1 \<and>
   sequenceKeys (run initCache [Insert ''Pune'' pune, Insert ''Pune'' pune2]) = [''Pune'', ''Pune''] \<and>
   Len (orderedList (run initCache [Insert ''Pune'' pune])) = 1 \<and>
   Len (orderedList (run initCache [Insert ''Pune'' pune, Insert ''Pune'' pune2])) = 2"
  by (simp add: fullCache_def cache_eval)

text \<open>
  C2. The keys of the index against the keys of the list. Evaluated from the empty cache:
  after two insertions of Pune the list carries Pune twice while the index has it once;
  with capacity two and a further insertion of Delhi the index holds Delhi alone while
  the list carries Delhi and Pune.
\<close>

theorem bijection_broken_evaluated:
  "sequenceKeys (run initCache [Insert ''Pune'' pune, Insert ''Pune'' pune2]) = [''Pune'', ''Pune''] \<and>
   indexKeys (run initCache [Insert ''Pune'' pune, Insert ''Pune'' pune2]) = {''Pune''} \<and>
   \<not> distinct (sequenceKeys (run initCache [Insert ''Pune'' pune, Insert ''Pune'' pune2])) \<and>
   indexKeys (run (emptyCache 2 (30 * Minute))
      [Insert ''Pune'' pune, Insert ''Pune'' pune2, Insert ''Delhi'' delhi]) = {''Delhi''} \<and>
   set (sequenceKeys (run (emptyCache 2 (30 * Minute))
      [Insert ''Pune'' pune, Insert ''Pune'' pune2, Insert ''Delhi'' delhi])) = {''Delhi'', ''Pune''}"
  by (simp add: cache_eval)

text \<open>
  C3. Starting from the empty cache with a positive capacity, after every finite sequence
  of lookups and insertions the list holds at most \<open>maxSize\<close> elements and the index
  at most \<open>maxSize\<close> keys. The sequence is arbitrary, so the bound holds after each of
  its operations.
\<close>

theorem capacity_invariant:
  assumes "0 < ms"
  shows "Len (orderedList (run (emptyCache ms ex) ops)) \<le> ms \<and>
         indexSize (run (emptyCache ms ex) ops) \<le> ms"
proof -
  let ?c = "run (emptyCache ms ex) ops"
  have "Len (orderedList ?c) \<le> maxSize (emptyCache ms ex)"
    using assms by (intro Len_run) (simp_all add: emptyCache_def Len_def)
  then have l: "Len (orderedList ?c) \<le> ms"
    by (simp add: emptyCache_def)
  have "cache_inv ?c"
    by (simp add: cache_inv_run cache_inv_empty)
  then have "indexSize ?c \<le> Len (orderedList ?c)"
    by (rule indexSize_le_Len)
  with l show ?thesis by simp
qed

theorem capacity_invariant_witness:
  "(0::int) < 2 \<and>
   Len (orderedList (run (emptyCache 2 (30 * Minute))
     [Insert ''Pune'' zeroCityWeatherData, Insert ''Delhi'' zeroCityWeatherData,
      Insert ''Agra'' zeroCityWeatherData])) \<le> 2 \<and>
   indexSize (run (emptyCache 2 (30 * Minute))
     [Insert ''Pune'' zeroCityWeatherData, Insert ''Delhi'' zeroCityWeatherData,
      Insert ''Agra'' zeroCityWeatherData]) \<le> 2"
  using capacity_invariant [of 2 "30 * Minute"
     "[Insert ''Pune'' zeroCityWeatherData, Insert ''Delhi'' zeroCityWeatherData,
       Insert ''Agra'' zeroCityWeatherData]"]
  by simp

text \<open>
  C4. When an insertion evicts. Evaluated on the cache of capacity two that holds Pune
  and Delhi, so that the index has \<open>maxSize\<close> keys: inserting Delhi, a key that is
  present, evicts the element at the back, Pune, from the index and from the list.
\<close>

theorem eviction_with_present_key_evaluated:
  "indexSize fullCache = maxSize fullCache \<and>
   data fullCache ''Delhi'' \<noteq> None \<and>
   data fullCache ''Pune'' = Some (last (orderedList fullCache)) \<and>
   data (updateCache fullCache ''Delhi'' delhi2) ''Pune'' = None \<and>
   orderedList (updateCache fullCache ''Delhi'' delhi2) =
     [\<lparr>addr = 2, Value = \<lparr>city = ''Delhi'', itemData = delhi2\<rparr>\<rparr>,
      \<lparr>addr = 1, Value = \<lparr>city = ''Delhi'', itemData = delhi\<rparr>\<rparr>]"
  by (simp add: fullCache_def cache_eval)

text \<open>
  C5, as the code has it. With capacity zero, started from the empty cache and after any
  sequence of lookups and insertions, an insertion is made on the cache that
  \<open>evictOldest\<close> leaves, \<open>evictOldest\<close> takes at most one element from the list
  and at most one key from the index, nothing fails (the functions are total, and
  \<open>evictOldest\<close> has its branch for the empty list), and when the insertion is done
  the cache holds exactly one entry, the one just inserted: it is never empty then.
\<close>

theorem insert_zero_capacity:
  "orderedList (updateCache (run (emptyCache 0 ex) ops) k d) =
     \<lparr>addr = nextAddr (run (emptyCache 0 ex) ops), Value = \<lparr>city = k, itemData = d\<rparr>\<rparr> #
       orderedList (evictOldest (run (emptyCache 0 ex) ops)) \<and>
   Len (orderedList (run (emptyCache 0 ex) ops)) - 1
     \<le> Len (orderedList (evictOldest (run (emptyCache 0 ex) ops))) \<and>
   indexSize (run (emptyCache 0 ex) ops) - 1
     \<le> indexSize (evictOldest (run (emptyCache 0 ex) ops)) \<and>
   orderedList (updateCache (run (emptyCache 0 ex) ops) k d) =
     [\<lparr>addr = nextAddr (run (emptyCache 0 ex) ops), Value = \<lparr>city = k, itemData = d\<rparr>\<rparr>] \<and>
   data (updateCache (run (emptyCache 0 ex) ops) k d) =
     [k \<mapsto> \<lparr>addr = nextAddr (run (emptyCache 0 ex) ops), Value = \<lparr>city = k, itemData = d\<rparr>\<rparr>] \<and>
   Len (orderedList (updateCache (run (emptyCache 0 ex) ops) k d)) = 1 \<and>
   indexSize (updateCache (run (emptyCache 0 ex) ops) k d) = 1"
proof -
  define c where "c = run (emptyCache 0 ex) ops"
  have ms: "maxSize c = 0"
    by (simp add: c_def maxSize_run emptyCache_def)
  have inv: "cache_inv c"
    by (simp add: c_def cache_inv_run cache_inv_empty)
  have short: "Len (orderedList c) \<le> 1"
    unfolding c_def by (rule Len_le_one_run) (simp_all add: emptyCache_def Len_def)
  then have l: "orderedList (evictOldest c) = []"
    by (rule evictOldest_short)
  have "cache_inv (evictOldest c)"
    using inv by (rule cache_inv_evictOldest)
  then have d: "data (evictOldest c) = Map.empty"
    using l by (rule data_empty)
  have one: "Len (orderedList c) - 1 \<le> Len (orderedList (evictOldest c))"
    by (simp add: Len_evictOldest) (simp add: Len_def)
  have "indexSize c \<le> Len (orderedList c)"
    using inv by (rule indexSize_le_Len)
  with short d have one': "indexSize c - 1 \<le> indexSize (evictOldest c)"
    by (simp add: indexSize_def)
  show ?thesis
    using l d one one' unfolding c_def[symmetric]
    by (simp add: updateCache_zero_capacity[OF ms] Len_def indexSize_def)
qed

text \<open>
  C5 as it is written fails: with capacity zero the first insertion into the empty cache
  leaves one element in the list and one key in the index.
\<close>

theorem insert_zero_capacity_counterexample:
  "maxSize (emptyCache 0 (30 * Minute)) = 0 \<and>
   orderedList (updateCache (emptyCache 0 (30 * Minute)) ''Pune'' pune) \<noteq> [] \<and>
   data (updateCache (emptyCache 0 (30 * Minute)) ''Pune'' pune) ''Pune'' \<noteq> None \<and>
   Len (orderedList (updateCache (emptyCache 0 (30 * Minute)) ''Pune'' pune)) = 1 \<and>
   indexSize (updateCache (emptyCache 0 (30 * Minute)) ''Pune'' pune) = 1"
  by (simp add: cache_eval)

text \<open>
  C6. For a key that the index holds, in a cache that satisfies \<open>cache_inv\<close> and
  whose \<open>expiry\<close> is a duration other than the smallest one: when the age
  \<open>now - CacheTime\<close> of the entry is below \<open>expiry\<close> the lookup returns the stored
  record and true; when the age is \<open>expiry\<close> or more it returns the zero value and
  false, the key is deleted from the index, the element is taken out of the list and is
  no longer in it, and both the length of the list and the number of keys of the index go
  down by one. The saturation of \<^verbatim>\<open>Time.Sub\<close> does not change the comparison.
\<close>

theorem lookup_present:
  assumes "cache_inv c" and "data c k = Some e"
    and "minDuration < expiry c" and "expiry c \<le> maxDuration"
  shows "(now - CacheTime (itemData (Value e)) < expiry c \<longrightarrow>
            snd (getCachedWeatherData c k now) = (itemData (Value e), True)) \<and>
         (expiry c \<le> now - CacheTime (itemData (Value e)) \<longrightarrow>
            snd (getCachedWeatherData c k now) = (zeroCityWeatherData, False) \<and>
            data (fst (getCachedWeatherData c k now)) = (data c)(k := None) \<and>
            orderedList (fst (getCachedWeatherData c k now)) = remove1 e (orderedList c) \<and>
            e \<notin> set (orderedList (fst (getCachedWeatherData c k now))) \<and>
            Len (orderedList (fst (getCachedWeatherData c k now))) = Len (orderedList c) - 1 \<and>
            indexSize (fst (getCachedWeatherData c k now)) = indexSize c - 1)"
proof -
  let ?t = "CacheTime (itemData (Value e))"
  have fresh: "time_Since now ?t < expiry c \<longleftrightarrow> now - ?t < expiry c"
    using assms(3,4) by (rule time_Since_less)
  have mem: "e \<in> set (orderedList c)"
    using assms(1,2) by (rule in_list_of_index)
  have dist: "distinct (orderedList c)"
    using assms(1) by (rule distinct_orderedList)
  have hit: "snd (getCachedWeatherData c k now) = (itemData (Value e), True)"
    if "now - ?t < expiry c"
    using that fresh assms(2) by (simp add: getCachedWeatherData_def Let_def promoted_def)
  have miss: "getCachedWeatherData c k now =
      (c\<lparr>orderedList := remove1 e (orderedList c), data := (data c)(k := None)\<rparr>,
       zeroCityWeatherData, False)"
    if "expiry c \<le> now - ?t"
    using that fresh assms(2) mem
    by (simp add: getCachedWeatherData_def Let_def promoted_def expired_def Remove_MoveToFront)
  have len: "Len (remove1 e (orderedList c)) = Len (orderedList c) - 1"
    using Len_Remove[of e "orderedList c"] mem by (simp add: Remove_def)
  have gone: "e \<notin> set (remove1 e (orderedList c))"
    using dist by simp
  have idx: "indexSize (c\<lparr>orderedList := remove1 e (orderedList c), data := (data c)(k := None)\<rparr>)
      = indexSize c - 1"
    using indexSize_delete[OF assms(1,2)] by (simp add: indexSize_def)
  show ?thesis
    using hit miss len gone idx by simp
qed

theorem lookup_present_witness:
  "cache_inv puneCache \<and> data puneCache ''Pune'' = Some puneElem \<and>
   minDuration < expiry puneCache \<and> expiry puneCache \<le> maxDuration \<and>
   (110::int) - CacheTime (itemData (Value puneElem)) < expiry puneCache \<and>
   snd (getCachedWeatherData puneCache ''Pune'' 110) = (pune, True) \<and>
   expiry puneCache \<le> (100 + 30 * Minute) - CacheTime (itemData (Value puneElem)) \<and>
   snd (getCachedWeatherData puneCache ''Pune'' (100 + 30 * Minute)) = (zeroCityWeatherData, False) \<and>
   orderedList (fst (getCachedWeatherData puneCache ''Pune'' (100 + 30 * Minute))) = [] \<and>
   Len (orderedList (fst (getCachedWeatherData puneCache ''Pune'' (100 + 30 * Minute)))) = 0 \<and>
   indexSize (fst (getCachedWeatherData puneCache ''Pune'' (100 + 30 * Minute))) = 0"
proof -
  have inv: "cache_inv puneCache"
    by (simp add: puneCache_def initCache_def cache_inv_updateCache cache_inv_empty)
  have idx: "data puneCache ''Pune'' = Some puneElem"
    by (simp add: puneCache_eq)
  have lo: "minDuration < expiry puneCache" and hi: "expiry puneCache \<le> maxDuration"
    by (simp_all add: puneCache_eq minDuration_def maxDuration_def Minute_def)
  have sz: "Len (orderedList puneCache) = 1" "indexSize puneCache = 1"
      "orderedList puneCache = [puneElem]"
    by (simp_all add: puneCache_eq Len_def indexSize_def)
  have age: "(110::int) - CacheTime (itemData (Value puneElem)) < expiry puneCache"
      "expiry puneCache \<le> (100 + 30 * Minute) - CacheTime (itemData (Value puneElem))"
    by (simp_all add: puneCache_eq puneElem_def pune_def Minute_def)
  show ?thesis
    using lookup_present [OF inv idx lo hi, of 110]
      lookup_present [OF inv idx lo hi, of "100 + 30 * Minute"] inv idx lo hi sz age
    by (simp add: puneElem_def Len_def)
qed





text \<open>
  C9. Two goroutines in \<^verbatim>\<open>getCachedWeatherData\<close> both pass their
  \<^verbatim>\<open>RLock\<close> and are inside the body at the same time, with two readers registered
  on the mutex. A goroutine in \<^verbatim>\<open>updateCache\<close> does keep every other one out: the
  schedules that would put a second goroutine inside next to it have no outcome.
\<close>

theorem lookups_not_serialized:
  "schedule (unlocked, [(GetCachedWeatherData, Before), (GetCachedWeatherData, Before)]) [0, 1]
     = Some (\<lparr>readers = 2, writer = False\<rparr>,
             [(GetCachedWeatherData, Inside), (GetCachedWeatherData, Inside)]) \<and>
   schedule (unlocked, [(UpdateCache, Before), (GetCachedWeatherData, Before)]) [0, 1] = None \<and>
   schedule (unlocked, [(GetCachedWeatherData, Before), (UpdateCache, Before)]) [0, 1] = None \<and>
   schedule (unlocked, [(UpdateCache, Before), (UpdateCache, Before)]) [0, 1] = None"
  by (simp add: unlocked_def)

text \<open>
  C10, as the code has it. \<^verbatim>\<open>updateCache\<close> does not stamp the entry: the age of
  an entry is measured from the \<open>CacheTime\<close> that the inserted record carries. For
  every cache, key and record, with a positive \<open>expiry\<close>, a lookup at \<open>now\<close> right
  after the insertion returns the record and true provided
  \<open>now - CacheTime v < expiry\<close>; the index maps the key to the new element and that
  element is the head of the list.
\<close>

theorem lookup_after_insert:
  assumes "0 < expiry c" and "expiry c \<le> maxDuration" and "now - CacheTime v < expiry c"
  shows "snd (getCachedWeatherData (updateCache c k v) k now) = (v, True) \<and>
         data (updateCache c k v) k = Some \<lparr>addr = nextAddr c, Value = \<lparr>city = k, itemData = v\<rparr>\<rparr> \<and>
         hd (orderedList (updateCache c k v)) = \<lparr>addr = nextAddr c, Value = \<lparr>city = k, itemData = v\<rparr>\<rparr>"
proof -
  let ?e = "\<lparr>addr = nextAddr c, Value = \<lparr>city = k, itemData = v\<rparr>\<rparr>"
  let ?c = "updateCache c k v"
  have ex: "expiry ?c = expiry c"
    by (simp add: updateCache_def PushFront_def Let_def evictOldest_def split: option.splits)
  have d: "data ?c k = Some ?e"
    by (simp add: updateCache_def PushFront_def Let_def nextAddr_evictOldest)
  have h: "hd (orderedList ?c) = ?e"
    by (simp add: updateCache_def PushFront_def Let_def nextAddr_evictOldest)
  have "minDuration < expiry c"
    using assms(1) by (simp add: minDuration_def)
  then have "time_Since now (CacheTime v) < expiry c"
    using assms(2,3) by (simp add: time_Since_less)
  then have "snd (getCachedWeatherData ?c k now) = (v, True)"
    using d ex by (simp add: getCachedWeatherData_def Let_def promoted_def)
  with d h show ?thesis by simp
qed

theorem lookup_after_insert_witness:
  "0 < expiry initCache \<and> expiry initCache \<le> maxDuration \<and>
   (110::int) - CacheTime pune < expiry initCache \<and>
   snd (getCachedWeatherData (updateCache initCache ''Pune'' pune) ''Pune'' 110) = (pune, True)"
  using lookup_after_insert [of initCache 110 pune "''Pune''"]
  by (simp add: initCache_def emptyCache_def maxDuration_def Minute_def pune_def)

text \<open>
  C10 as it is written fails: a record whose \<open>CacheTime\<close> lies thirty minutes before
  the clock is inserted and looked up at once, and the lookup returns the zero value and
  false.
\<close>

theorem lookup_after_insert_counterexample:
  "0 < expiry initCache \<and>
   snd (getCachedWeatherData (updateCache initCache ''Pune'' stale) ''Pune'' (30 * Minute))
     = (zeroCityWeatherData, False) \<and>
   snd (getCachedWeatherData (updateCache initCache ''Pune'' stale) ''Pune'' (30 * Minute))
     \<noteq> (stale, True)"
  by (simp add: stale_def cache_eval)

end
